theory Spec2Isabelle
  imports Main "HOL-Library.Word"
begin

section \<open>The GBF to HTML filter of BibleTime (src/backend/filters/gbftohtml.cpp)\<close>

text \<open>
  The filter works on two kinds of text: the byte buffer \<open>sword::SWBuf\<close> and Qt's
  \<open>QString\<close>. Both are modelled as \<open>string\<close>, a list of 8-bit characters. The model is
  exact for ASCII buffers, where \<open>QString::fromUtf8\<close> and \<open>QString::toUtf8\<close> change nothing
  and a \<open>QChar\<close> is one byte; a byte above 0x7F is treated as an ordinary letter (neither
  white space nor punctuation).

  The process can end in two ways other than by returning: \<open>abort()\<close>, and a loop that
  never leaves (\<open>Hang\<close>). Both are values of the model.
\<close>

datatype error = Abort | Hang

subsection \<open>QChar and QString operations used by the filter\<close>

text \<open>\<open>QChar::isSpace\<close> on ASCII: the blank and the control characters 0x09 to 0x0D.\<close>

definition QChar_isSpace :: "char \<Rightarrow> bool" where
  "QChar_isSpace c \<longleftrightarrow>
     c \<in> set [CHR '' '', CHR 0x09, CHR 0x0A, CHR 0x0B, CHR 0x0C, CHR 0x0D]"

text \<open>
  \<open>QChar::isPunct\<close> on ASCII: the Unicode categories Pc, Pd, Ps, Pe and Po. The
  characters \<open>$ + < = > ^ ` | ~\<close> are symbols, not punctuation.
\<close>

definition QChar_isPunct :: "char \<Rightarrow> bool" where
  "QChar_isPunct c \<longleftrightarrow>
     c \<in> set [CHR ''!'', CHR 0x22, CHR ''#'', CHR ''%'', CHR ''&'', CHR 0x27, CHR ''('',
              CHR '')'', CHR ''*'', CHR '','', CHR ''-'', CHR ''.'', CHR ''/'', CHR '':'',
              CHR '';'', CHR ''?'', CHR ''@'', CHR ''['', CHR 0x5C, CHR '']'', CHR ''_'',
              CHR ''{'', CHR ''}'']"

text \<open>\<open>QString::trimmed\<close>: white space removed from both ends.\<close>

definition trimmed :: "string \<Rightarrow> string" where
  "trimmed s = rev (dropWhile QChar_isSpace (rev (dropWhile QChar_isSpace s)))"

text \<open>\<open>QString::left(n)\<close>: the first \<open>n\<close> characters, the whole string when it is shorter.\<close>

definition left :: "nat \<Rightarrow> string \<Rightarrow> string" where
  "left n s = take n s"

text \<open>
  \<open>QString::remove(pos, n)\<close>: \<open>n\<close> characters from \<open>pos\<close> on are removed (fewer when the
  string ends earlier, none when \<open>pos\<close> is not inside the string).
\<close>

definition remove_at :: "nat \<Rightarrow> nat \<Rightarrow> string \<Rightarrow> string" where
  "remove_at pos n s = take pos s @ drop (pos + n) s"

text \<open>
  \<open>QString::replace(pos, n, after)\<close>: the \<open>n\<close> characters from \<open>pos\<close> on are replaced by
  \<open>after\<close>; nothing happens when \<open>pos\<close> is beyond the end.
\<close>

definition replace_at :: "nat \<Rightarrow> nat \<Rightarrow> string \<Rightarrow> string \<Rightarrow> string" where
  "replace_at pos n after s =
     (if pos > length s then s else take pos s @ after @ drop (pos + n) s)"

text \<open>
  \<open>QString::insert(i, t)\<close>: \<open>t\<close> is put in front of the character at index \<open>i\<close>. When
  \<open>i\<close> is beyond the end, Qt first extends the string with blanks up to \<open>i\<close>.
\<close>

definition insert_at :: "nat \<Rightarrow> string \<Rightarrow> string \<Rightarrow> string" where
  "insert_at i t s =
     (if i > length s then s @ replicate (i - length s) CHR '' '' @ t
      else take i s @ t @ drop i s)"

text \<open>
  \<open>e[i]\<close> on a non-const \<open>QString\<close> read as a \<open>QChar\<close>: the character at \<open>i\<close>, and the
  null character when \<open>i\<close> is not inside the string.
\<close>

definition char_at :: "string \<Rightarrow> nat \<Rightarrow> char" where
  "char_at s i = (if i < length s then s ! i else CHR 0x00)"

subsection \<open>The regular expressions\<close>

text \<open>
  \<open>QRegExp\<close> is not backtracking: at a start position it reports the longest match, or
  the shortest one after \<open>setMinimal(true)\<close>. Each pattern of the filter is modelled by a
  matcher that, given the text from a start position on, returns what the pattern
  matches there. \<open>indexIn\<close> is the search itself: the leftmost start position at or after
  the offset where the pattern matches.
\<close>

fun indexFrom :: "(string \<Rightarrow> 'a option) \<Rightarrow> string \<Rightarrow> nat \<Rightarrow> (nat \<times> 'a) option" where
  "indexFrom m [] i = None"
| "indexFrom m (c # cs) i =
     (case m (c # cs) of
        Some r \<Rightarrow> Some (i, r)
      | None \<Rightarrow> indexFrom m cs (Suc i))"

definition indexIn :: "(string \<Rightarrow> 'a option) \<Rightarrow> string \<Rightarrow> nat \<Rightarrow> (nat \<times> 'a) option" where
  "indexIn m s offset = indexFrom m (drop offset s) offset"

text \<open>
  \<open><W([HGT])([^>]*)>\<close>, the raw word-origin marker: the result is the first capture (the
  kind letter), the second capture (the payload) and the matched length. The payload
  ends at the first \<open>>\<close>, so the longest and the shortest match are the same.
\<close>

definition kindLetter :: "char \<Rightarrow> bool" where
  "kindLetter k \<longleftrightarrow> k = CHR ''H'' \<or> k = CHR ''G'' \<or> k = CHR ''T''"

fun rx_marker :: "string \<Rightarrow> (char \<times> string \<times> nat) option" where
  "rx_marker (a # b # k # rest) =
     (if a = CHR ''<'' \<and> b = CHR ''W'' \<and> kindLetter k then
        (let v = takeWhile (\<lambda>c. c \<noteq> CHR ''>'') rest
         in if length v < length rest then Some (k, v, length v + 4) else None)
      else None)"
| "rx_marker _ = None"

text \<open>\<open>[.,;:]\<close>\<close>

definition rx_punct :: "char \<Rightarrow> bool" where
  "rx_punct c \<longleftrightarrow> c = CHR ''.'' \<or> c = CHR '','' \<or> c = CHR '';'' \<or> c = CHR '':''"

text \<open>
  One round of the group in \<open>([.,;:]?<W[HGT][^>]*>\s*)+\<close>: an optional punctuation
  character, a marker, and all the white space behind it. The result is the length.
\<close>

definition rx_unit :: "string \<Rightarrow> nat option" where
  "rx_unit s =
     (let p = (case s of [] \<Rightarrow> 0 | c # _ \<Rightarrow> if rx_punct c then 1 else (0::nat))
      in case rx_marker (drop p s) of
           None \<Rightarrow> None
         | Some (k, v, n) \<Rightarrow>
             Some (p + n + length (takeWhile QChar_isSpace (drop (p + n) s))))"

lemma rx_marker_len: "rx_marker s = Some (k, v, n) \<Longrightarrow> 4 \<le> n \<and> n \<le> length s"
  by (cases s rule: rx_marker.cases) (auto simp: Let_def split: if_splits)

lemma rx_unit_len: "rx_unit s = Some n \<Longrightarrow> 4 \<le> n \<and> n \<le> length s"
proof -
  assume a: "rx_unit s = Some n"
  define p where "p = (case s of [] \<Rightarrow> 0 | c # _ \<Rightarrow> if rx_punct c then 1 else (0::nat))"
  from a obtain k v m where m: "rx_marker (drop p s) = Some (k, v, m)"
    and n: "n = p + m + length (takeWhile QChar_isSpace (drop (p + m) s))"
    by (auto simp: rx_unit_def p_def Let_def split: option.splits)
  from rx_marker_len [OF m] have "4 \<le> m" and "m \<le> length s - p" by auto
  moreover have "length (takeWhile QChar_isSpace (drop (p + m) s)) \<le> length s - (p + m)"
    using length_takeWhile_le [of QChar_isSpace "drop (p + m) s"] by simp
  ultimately show ?thesis using n by auto
qed

text \<open>
  \<open>([.,;:]?<W[HGT][^>]*>\s*)+\<close>, the run of markers that ends a fragment: the longest
  match, that is as many rounds as there are. The result is the matched length.
\<close>

function rx_run :: "string \<Rightarrow> nat option" where
  "rx_run s =
     (case rx_unit s of
        None \<Rightarrow> None
      | Some n \<Rightarrow> (case rx_run (drop n s) of None \<Rightarrow> Some n | Some m \<Rightarrow> Some (n + m)))"
  by pat_completeness auto
termination
proof (relation "measure length")
  show "wf (measure length)" by simp
next
  fix s :: string and n
  assume "rx_unit s = Some n"
  from rx_unit_len [OF this] show "(drop n s, s) \<in> measure length" by auto
qed

declare rx_run.simps [simp del]

text \<open>
  \<open>lemma=".+(?=")\<close> and \<open>morph=".+(?=")\<close>, minimal: the attribute name, \<open>="\<close>, and the
  fewest characters (at least one) that are followed by a double quote. The result is
  the matched length, which leaves the closing quote out.
\<close>

definition rx_attr :: "string \<Rightarrow> string \<Rightarrow> nat option" where
  "rx_attr name s =
     (let h = name @ [CHR ''='', CHR 0x22]
      in if take (length h) s = h then
           (case drop (length h) s of
              [] \<Rightarrow> None
            | c # r \<Rightarrow>
                (let v = takeWhile (\<lambda>c. c \<noteq> CHR 0x22) r
                 in if length v < length r then Some (length h + 1 + length v) else None))
         else None)"

subsection \<open>The annotation post-processor (\<open>GbfToHtml::processText\<close>, lines 107 to 236)\<close>

lemma indexFrom_Some:
  "indexFrom m s i = Some (p, r) \<Longrightarrow> i \<le> p \<and> p - i < length s \<and> m (drop (p - i) s) = Some r"
proof (induction s arbitrary: i)
  case Nil
  then show ?case by simp
next
  case (Cons c cs)
  show ?case
  proof (cases "m (c # cs)")
    case None
    with Cons.prems have "indexFrom m cs (Suc i) = Some (p, r)" by simp
    from Cons.IH [OF this] have ih: "Suc i \<le> p" "p - Suc i < length cs"
      "m (drop (p - Suc i) cs) = Some r" by auto
    from ih(1) have "p - i = Suc (p - Suc i)" by arith
    with ih show ?thesis by simp
  next
    case (Some r')
    with Cons.prems show ?thesis by simp
  qed
qed

lemma indexIn_Some:
  assumes "indexIn m s offset = Some (p, r)"
  shows "offset \<le> p" and "p < length s" and "m (drop p s) = Some r"
  using indexFrom_Some [OF assms [unfolded indexIn_def]] by auto

lemma rx_run_len: "rx_run s = Some n \<Longrightarrow> 4 \<le> n \<and> n \<le> length s"
proof (induction s arbitrary: n rule: rx_run.induct)
  case (1 s)
  from "1.prems" obtain u where u: "rx_unit s = Some u"
    by (subst (asm) rx_run.simps) (auto split: option.splits)
  note ul = rx_unit_len [OF u]
  show ?case
  proof (cases "rx_run (drop u s)")
    case None
    with u "1.prems" have "n = u" by (subst (asm) rx_run.simps) simp
    with ul show ?thesis by simp
  next
    case (Some m)
    with u "1.prems" have n: "n = u + m" by (subst (asm) rx_run.simps) simp
    from "1.IH" [OF u Some] have "m \<le> length s - u" by simp
    with ul n show ?thesis by auto
  qed
qed

text \<open>
  The segmentation (lines 112 to 131). The source searches once before its do-while loop
  and again at the end of each round; \<open>splitLoop\<close> searches at the start of each round,
  which is the same sequence of searches. The part up to the end of the match is
  appended to the list and removed from \<open>t\<close>. The result is the list and the text behind
  the last match.
\<close>

function splitLoop :: "string \<Rightarrow> string list \<Rightarrow> string list \<times> string" where
  "splitLoop t list =
     (case indexIn rx_run t 0 of
        None \<Rightarrow> (list, t)
      | Some (pos, len) \<Rightarrow>
          (let partLength = pos + len
           in splitLoop (remove_at 0 partLength t) (list @ [left partLength t])))"
  by pat_completeness auto
termination
proof (relation "measure (\<lambda>(t, list). length t)")
  show "wf (measure (\<lambda>(t, list). length t))" by simp
next
  fix t :: string and list :: "string list" and x2 pos len partLength
  assume a: "indexIn rx_run t 0 = Some x2" "(pos, len) = x2" and p: "partLength = pos + len"
  then have i: "indexIn rx_run t 0 = Some (pos, len)" by simp
  from indexIn_Some(2) [OF i] have "t \<noteq> []" by auto
  moreover from rx_run_len [OF indexIn_Some(3) [OF i]] have "0 < len" by simp
  ultimately show "((remove_at 0 partLength t, list @ [left partLength t]), (t, list))
      \<in> measure (\<lambda>(t, list). length t)"
    using p by (simp add: remove_at_def)
qed

declare splitLoop.simps [simp del]

text \<open>
  The loop of lines 180 to 187: \<open>startPos\<close> moves over the white space and punctuation at
  the start of the fragment, and stops at \<open>pos\<close> at the latest.
\<close>

function skipBlanks :: "string \<Rightarrow> nat \<Rightarrow> nat \<Rightarrow> nat" where
  "skipBlanks e pos startPos =
     (if startPos < pos \<and> (QChar_isSpace (char_at e startPos) \<or> QChar_isPunct (char_at e startPos))
      then skipBlanks e pos (Suc startPos)
      else startPos)"
  by pat_completeness auto
termination
  by (relation "measure (\<lambda>(e, pos, startPos). pos - startPos)") auto

declare skipBlanks.simps [simp del]

text \<open>The variables of the loop over the markers of one fragment (lines 154 to 158).\<close>

record loopvars =
  insertedTag :: bool
  hasLemmaAttr :: bool
  hasMorphAttr :: bool
  tagAttributeStart :: "nat option"  \<comment> \<open>\<open>None\<close> is the source's -1\<close>

definition attrName :: "bool \<Rightarrow> string" where
  "attrName isMorph = (if isMorph then ''morph'' else ''lemma'')"

text \<open>The number of \<open>>\<close> in a text: what the loop below uses up.\<close>

definition closers :: "string \<Rightarrow> nat" where
  "closers s = length (filter (\<lambda>c. c = CHR ''>'') s)"

lemma closers_append: "closers (a @ b) = closers a + closers b"
  by (simp add: closers_def)

lemma closers_drop_le: "closers (drop n s) \<le> closers s"
proof -
  have "closers s = closers (take n s) + closers (drop n s)"
    using closers_append [of "take n s" "drop n s"] by simp
  then show ?thesis by simp
qed

lemma closers_drop_mono: "a \<le> b \<Longrightarrow> closers (drop b s) \<le> closers (drop a s)"
proof -
  assume "a \<le> b"
  then have "drop b s = drop (b - a) (drop a s)" by simp
  then show ?thesis using closers_drop_le [of "b - a" "drop a s"] by simp
qed

lemma closers_none: "CHR ''>'' \<notin> set t \<Longrightarrow> closers t = 0"
  by (induction t) (auto simp: closers_def)

lemma rx_marker_Some:
  assumes "rx_marker s = Some (k, v, n)"
  shows "kindLetter k" and "CHR ''>'' \<notin> set v" and "n = length v + 4"
    and "s = CHR ''<'' # CHR ''W'' # k # v @ CHR ''>'' # drop n s"
proof -
  from assms obtain rest where s: "s = CHR ''<'' # CHR ''W'' # k # rest"
    and k: "kindLetter k" and v: "v = takeWhile (\<lambda>c. c \<noteq> CHR ''>'') rest"
    and l: "length v < length rest" and n: "n = length v + 4"
    by (cases s rule: rx_marker.cases) (auto simp: Let_def split: if_splits)
  from v have "CHR ''>'' \<notin> set v" by (auto dest: set_takeWhileD)
  moreover have "rest = v @ dropWhile (\<lambda>c. c \<noteq> CHR ''>'') rest" by (simp add: v)
  moreover from l v have "dropWhile (\<lambda>c. c \<noteq> CHR ''>'') rest \<noteq> []"
    by (metis append_Nil2 less_irrefl takeWhile_dropWhile_id)
  then have "dropWhile (\<lambda>c. c \<noteq> CHR ''>'') rest
      = CHR ''>'' # tl (dropWhile (\<lambda>c. c \<noteq> CHR ''>'') rest)"
    using hd_dropWhile [of "\<lambda>c. c \<noteq> CHR ''>''" rest] by (cases "dropWhile (\<lambda>c. c \<noteq> CHR ''>'') rest") auto
  ultimately obtain r' where r: "rest = v @ CHR ''>'' # r'" and nv: "CHR ''>'' \<notin> set v" by metis
  have "n = Suc (Suc (Suc (Suc (length v))))" by (simp add: n)
  then have "drop n s = r'" by (simp add: s r)
  with s r k nv n show "kindLetter k" "CHR ''>'' \<notin> set v" "n = length v + 4"
    "s = CHR ''<'' # CHR ''W'' # k # v @ CHR ''>'' # drop n s" by auto
qed

lemma rx_marker_closers: "rx_marker s = Some (k, v, n) \<Longrightarrow> closers (drop n s) < closers s"
proof -
  assume a: "rx_marker s = Some (k, v, n)"
  have "closers s = closers (CHR ''<'' # CHR ''W'' # k # v @ CHR ''>'' # drop n s)"
    using rx_marker_Some(4) [OF a] by simp
  then show ?thesis by (simp add: closers_def)
qed

lemma marker_found_closers:
  assumes "indexIn rx_marker e offset = Some (pos, k, v, n)"
  shows "closers (drop (pos + n) e) < closers (drop offset e)"
proof -
  from indexIn_Some [OF assms] have o: "offset \<le> pos" and m: "rx_marker (drop pos e) = Some (k, v, n)"
    by auto
  from rx_marker_closers [OF m] have "closers (drop (pos + n) e) < closers (drop pos e)"
    by (simp add: add.commute)
  with closers_drop_mono [OF o, of e] show ?thesis by simp
qed

lemma skipBlanks_le: "startPos \<le> pos \<Longrightarrow> skipBlanks e pos startPos \<le> pos"
proof (induction e pos startPos rule: skipBlanks.induct)
  case (1 e pos startPos)
  then show ?case by (subst skipBlanks.simps) auto
qed

lemma drop_insert_at_before:
  "i \<le> p \<Longrightarrow> i \<le> length s \<Longrightarrow> drop (p + length t) (insert_at i t s) = drop p s"
  by (simp add: insert_at_def)

lemma closers_insert_at:
  assumes "CHR ''>'' \<notin> set t"
  shows "closers (drop (p + length t) (insert_at i t s)) \<le> closers (drop p s)"
proof (cases "i \<le> p \<and> i \<le> length s")
  case True
  then show ?thesis by (simp add: drop_insert_at_before)
next
  case False
  have t0: "closers (drop k t) = 0" for k
    using assms by (auto intro!: closers_none dest: in_set_dropD)
  have "closers (drop (p + length t) (insert_at i t s)) \<le> closers (drop p (insert_at i t s))"
    by (rule closers_drop_mono) simp
  also have "closers (drop p (insert_at i t s)) = closers (drop p s)"
  proof (cases "length s < i")
    case True
    have "closers (drop k (replicate m CHR '' '')) = 0" for k m
      by (auto intro!: closers_none dest: in_set_dropD)
    with True t0 show ?thesis by (simp add: insert_at_def closers_append)
  next
    case False
    with \<open>\<not> (i \<le> p \<and> i \<le> length s)\<close> have pi: "p < i" and il: "i \<le> length s" by auto
    have "p - length (take i s) = 0" using pi il by simp
    with drop_append [of p "take i s" "drop i s"]
    have "drop p s = drop p (take i s) @ drop i s" by simp
    then have "closers (drop p s) = closers (drop p (take i s)) + closers (drop i s)"
      by (simp add: closers_append)
    with pi il t0 [of 0] show ?thesis by (simp add: insert_at_def closers_append)
  qed
  finally show ?thesis .
qed

lemma drop_replace_at:
  "pos + n \<le> length s \<Longrightarrow> length t = k \<Longrightarrow>
   drop (pos + k) (replace_at pos n t s) = drop (pos + n) s"
  by (auto simp: replace_at_def)

lemma drop_remove_at: "pos \<le> length s \<Longrightarrow> drop pos (remove_at pos n s) = drop (pos + n) s"
  by (simp add: remove_at_def)

lemma marker_found_bounds:
  assumes "indexIn rx_marker e offset = Some (pos, k, c2, n)"
  shows "pos + n \<le> length e" and "4 \<le> n" and "offset \<le> pos"
proof -
  from indexIn_Some [OF assms] have "pos < length e" and m: "rx_marker (drop pos e) = Some (k, c2, n)"
    and "offset \<le> pos" by auto
  with rx_marker_len [OF m] show "pos + n \<le> length e" "4 \<le> n" "offset \<le> pos" by auto
qed

lemma marker_value_no_closer:
  assumes "indexIn rx_marker e offset = Some (pos, k, c2, n)"
  shows "CHR ''>'' \<notin> set (if k = CHR ''T'' then c2 else k # c2)"
proof -
  from indexIn_Some(3) [OF assms] have m: "rx_marker (drop pos e) = Some (k, c2, n)" .
  from rx_marker_Some(1,2) [OF m] show ?thesis by (auto simp: kindLetter_def)
qed

lemma step_first_decreases:
  assumes "indexIn rx_marker e offset = Some (pos, k, c2, n)"
  shows "closers (drop (pos + 7 + length rep)
           (insert_at (skipBlanks (replace_at pos n ''</span>'' e) (pos + 7) 0) rep
              (replace_at pos n ''</span>'' e)))
         < closers (drop offset e)"
proof -
  let ?e1 = "replace_at pos n ''</span>'' e"
  let ?sp = "skipBlanks ?e1 (pos + 7) 0"
  note b = marker_found_bounds [OF assms]
  have sp: "?sp \<le> pos + 7" by (rule skipBlanks_le) simp
  have len: "pos + 7 \<le> length ?e1" using b(1) by (simp add: replace_at_def)
  have "drop (pos + 7 + length rep) (insert_at ?sp rep ?e1) = drop (pos + 7) ?e1"
    using sp len by (intro drop_insert_at_before) auto
  also have "\<dots> = drop (pos + n) e"
    by (rule drop_replace_at [OF b(1)]) simp
  finally show ?thesis using marker_found_closers [OF assms] by simp
qed

lemma step_remove_decreases:
  assumes "indexIn rx_marker e offset = Some (pos, k, c2, n)"
  shows "closers (drop pos (remove_at pos n e)) < closers (drop offset e)"
proof -
  note b = marker_found_bounds [OF assms]
  have "drop pos (remove_at pos n e) = drop (pos + n) e"
    using b(1) by (intro drop_remove_at) simp
  then show ?thesis using marker_found_closers [OF assms] by simp
qed

lemma step_insert_decreases:
  assumes "indexIn rx_marker e offset = Some (pos, k, c2, n)" and "CHR ''>'' \<notin> set t"
  shows "closers (drop (pos + length t) (insert_at i t (remove_at pos n e)))
         < closers (drop offset e)"
  using closers_insert_at [OF assms(2), of pos i "remove_at pos n e"]
    step_remove_decreases [OF assms(1)] by simp

text \<open>
  The loop over the markers of one fragment (lines 153 to 228). The source searches
  before the loop and at the end of each round; \<open>tagLoop\<close> searches from \<open>offset\<close> at the
  start of each round. \<open>cap1\<close> and \<open>cap2\<close> are \<open>tag.cap(1)\<close> and \<open>tag.cap(2)\<close>.

  The \<open>continue\<close> of line 197 jumps to the test \<open>pos != -1\<close> without a new search, so the
  same round would be repeated for ever: that is the value \<open>Hang\<close>.
\<close>

function tagLoop :: "string \<Rightarrow> nat \<Rightarrow> loopvars \<Rightarrow> error + string" where
  \<open>tagLoop e offset v =
     (case indexIn rx_marker e offset of
        None \<Rightarrow> Inr e
      | Some (pos, cap1, cap2, matchedLength) \<Rightarrow>
          (let isMorph = (cap1 = CHR ''T'');
               value = (if isMorph then cap2 else cap1 # cap2)
           in if value = [] then Inr e
              else if \<not> insertedTag v then
                (let e1 = replace_at pos matchedLength ''</span>'' e;
                     pos1 = pos + 7;
                     rep = ''<span '' @ attrName isMorph @ ''="'' @ value @ ''">'';
                     startPos = skipBlanks e1 pos1 0;
                     e2 = insert_at startPos rep e1
                 in tagLoop e2 (pos1 + length rep)
                      \<lparr>insertedTag = True, hasLemmaAttr = \<not> isMorph, hasMorphAttr = isMorph,
                       tagAttributeStart = Some (startPos + 6)\<rparr>)
              else
                (let e1 = remove_at pos matchedLength e
                 in case tagAttributeStart v of
                      None \<Rightarrow> Inl Hang
                    | Some tas \<Rightarrow>
                        if (\<not> isMorph \<and> hasLemmaAttr v) \<or> (isMorph \<and> hasMorphAttr v) then
                          (case indexIn (rx_attr (attrName isMorph)) e1 tas of
                             Some (foundPos, attrLength) \<Rightarrow>
                               tagLoop (insert_at (foundPos + attrLength) (CHR ''|'' # value) e1)
                                 (pos + (length value + 1))
                                 (v\<lparr>hasLemmaAttr := \<not> isMorph, hasMorphAttr := isMorph,
                                    insertedTag := True\<rparr>)
                           | None \<Rightarrow> tagLoop e1 pos (v\<lparr>insertedTag := True\<rparr>))
                        else
                          (let attr = attrName isMorph @ ''="'' @ value @ ''" ''
                           in tagLoop (insert_at tas attr e1) (pos + length attr)
                                (v\<lparr>hasMorphAttr := isMorph, hasLemmaAttr := \<not> isMorph,
                                   insertedTag := True\<rparr>)))))\<close>
  by pat_completeness auto
termination
proof (relation "measure (\<lambda>(e, offset, v). closers (drop offset e))", goal_cases)
  case 1
  show ?case by simp
next
  case (2 e offset v x2 pos y k ya c2 n isMorph val e1 pos1 rep startPos e2)
  then have "indexIn rx_marker e offset = Some (pos, k, c2, n)" by simp
  from step_first_decreases [OF this, of rep] 2 show ?case by simp
next
  case (3 e offset v x2 pos y k ya c2 n isMorph val e1 tas)
  then have "indexIn rx_marker e offset = Some (pos, k, c2, n)" by simp
  from step_remove_decreases [OF this] 3 show ?case by simp
next
  case (4 e offset v x2 pos y k ya c2 n isMorph val e1 tas x2b foundPos attrLength)
  then have i: "indexIn rx_marker e offset = Some (pos, k, c2, n)" by simp
  from marker_value_no_closer [OF i] 4 have "CHR ''>'' \<notin> set (CHR ''|'' # val)" by simp
  from step_insert_decreases [OF i this, of "foundPos + attrLength"] 4 show ?case by simp
next
  case (5 e offset v x2 pos y k ya c2 n isMorph val e1 tas attr)
  then have i: "indexIn rx_marker e offset = Some (pos, k, c2, n)" by simp
  from marker_value_no_closer [OF i] 5 have "CHR ''>'' \<notin> set attr"
    by (auto simp: attrName_def)
  from step_insert_decreases [OF i this, of tas] 5 show ?case by simp
qed

declare tagLoop.simps [simp del]


text \<open>
  One entry of the list (lines 140 to 231): an entry that starts with \<open><W\<close>, once it is
  trimmed and its \<open>.,;:\<close> are removed, has no word for its markers and is appended as it
  is; the markers of any other entry are worked on by the loop above.
\<close>

definition processEntry :: "string \<Rightarrow> error + string" where
  "processEntry e =
     (if left 2 (filter (\<lambda>c. \<not> rx_punct c) (trimmed e)) = ''<W'' then Inr e
      else tagLoop e 0 \<lparr>insertedTag = False, hasLemmaAttr = False, hasMorphAttr = False,
                         tagAttributeStart = None\<rparr>)"

fun entriesLoop :: "string list \<Rightarrow> string \<Rightarrow> error + string" where
  "entriesLoop [] result = Inr result"
| "entriesLoop (e # list) result =
     (case processEntry e of
        Inl err \<Rightarrow> Inl err
      | Inr e' \<Rightarrow> entriesLoop list (result @ e'))"

text \<open>
  \<open>buf.c_str()\<close> read as a C string, and the assignment of a C string to the buffer: the
  text up to the first null character. (A null character can stand in the buffer: the
  token \<open>CA00\<close> appends one.)
\<close>

definition c_str :: "string \<Rightarrow> string" where
  "c_str s = takeWhile (\<lambda>c. c \<noteq> CHR 0x00) s"

text \<open>
  Lines 112 to 236: the early return when no run of markers is found, the segmentation,
  the trailing text as the last entry, the loop over the entries, and the assignment of
  the result to the buffer.
\<close>

definition annotate :: "string \<Rightarrow> error + string" where
  "annotate buf =
     (let t = c_str buf
      in case indexIn rx_run t 0 of
           None \<Rightarrow> Inr buf
         | Some _ \<Rightarrow>
             (case splitLoop t [] of
                (list, t') \<Rightarrow>
                  (let list' = (if t' \<noteq> [] then list @ [t'] else list)
                   in case entriesLoop list' [] of
                        Inl err \<Rightarrow> Inl err
                      | Inr result \<Rightarrow> Inr (if list' \<noteq> [] then c_str result else buf))))"

subsection \<open>\<open>GbfToHtml::processText\<close>\<close>

text \<open>
  What \<open>processText\<close> reads of the module it is called for, and of the module the backend
  has under that name (\<open>CSwordModuleInfo::has\<close> for the three features).
\<close>

record SWModule =
  getName :: string
  isProcessEntryAttributes :: bool

record CSwordModuleInfo =
  has_lemmas :: bool
  has_morphTags :: bool
  has_strongNumbers :: bool

text \<open>
  \<open>GBFHTML_processText\<close> is the streaming stage of the base class (the Sword library), a
  parameter here; \<open>findModuleByName\<close> is the backend's lookup, which may find nothing.
\<close>

definition processText ::
  "(string \<Rightarrow> error + string) \<Rightarrow> (string \<rightharpoonup> CSwordModuleInfo) \<Rightarrow> SWModule \<Rightarrow> string
     \<Rightarrow> error + string" where
  "processText GBFHTML_processText findModuleByName module buf =
     (case GBFHTML_processText buf of
        Inl err \<Rightarrow> Inl err
      | Inr buf' \<Rightarrow>
          if \<not> isProcessEntryAttributes module then Inr buf'
          else if (case findModuleByName (getName module) of
                     Some m \<Rightarrow> \<not> has_lemmas m \<and> \<not> has_morphTags m \<and> \<not> has_strongNumbers m
                   | None \<Rightarrow> False) then Inr buf'
          else annotate buf')"

subsection \<open>The substitution table (the constructor, lines 37 to 87)\<close>

text \<open>
  The table of \<open>sword::SWBasicFilter\<close> maps a token to its replacement; the tokens are
  compared as they are (case matters). \<open>addTokenSubstitute\<close> sets an entry,
  \<open>removeTokenSubstitute\<close> deletes one, and \<open>substituteToken\<close> appends the replacement of a
  token that has one to the buffer.
\<close>

type_synonym tokenSubMap = "string \<rightharpoonup> string"

definition addTokenSubstitute :: "string \<Rightarrow> string \<Rightarrow> tokenSubMap \<Rightarrow> tokenSubMap" where
  "addTokenSubstitute token replacement m = m(token \<mapsto> replacement)"

definition removeTokenSubstitute :: "string \<Rightarrow> tokenSubMap \<Rightarrow> tokenSubMap" where
  "removeTokenSubstitute token m = m(token := None)"

definition substituteToken :: "tokenSubMap \<Rightarrow> string \<Rightarrow> string \<Rightarrow> string option" where
  "substituteToken m buf token = (case m token of None \<Rightarrow> None | Some r \<Rightarrow> Some (buf @ r))"

text \<open>
  The constructor, applied to the table that the constructor of the base class
  \<open>sword::GBFHTML\<close> has filled (a parameter: that class belongs to the Sword library).
\<close>

definition GbfToHtml :: "tokenSubMap \<Rightarrow> tokenSubMap" where
  \<open>GbfToHtml GBFHTML =
     (addTokenSubstitute ''JL'' ''</span>''
     (addTokenSubstitute ''JC'' ''<span class="center">''
     (addTokenSubstitute ''JR'' ''<span class="right">''
     (addTokenSubstitute ''CT'' ''&lt;''
     (addTokenSubstitute ''CG'' ''&gt;''
     (addTokenSubstitute ''CM'' ''<br/>''
     (addTokenSubstitute ''CL'' ''<br/>''
     (addTokenSubstitute ''Fn'' ''</font>''
     (addTokenSubstitute ''Ts'' ''</div>''
     (addTokenSubstitute ''TS'' ''<div class="sectiontitle">''
     (addTokenSubstitute ''Tt'' ''</div>''
     (addTokenSubstitute ''TT'' ''<div class="booktitle">''
     (addTokenSubstitute ''Fv'' ''</span>''
     (addTokenSubstitute ''FV'' ''<span class="sub">''
     (addTokenSubstitute ''Fs'' ''</span>''
     (addTokenSubstitute ''FS'' ''<span class="sup">''
     (addTokenSubstitute ''Fo'' ''</span>''
     (addTokenSubstitute ''FO'' ''<span class="quotation">''
     (addTokenSubstitute ''Fu'' ''</u>''
     (addTokenSubstitute ''FU'' ''<u>''
     (addTokenSubstitute ''Fr'' ''</span>''
     (addTokenSubstitute ''FR'' ''<span class="jesuswords">''
     (addTokenSubstitute ''Fb'' ''</span>''
     (addTokenSubstitute ''FB'' ''<span class="bold">''
     (addTokenSubstitute ''Fi'' ''</span>''
     (addTokenSubstitute ''FI'' ''<span class="italic">''
     (removeTokenSubstitute ''Rf'' GBFHTML)))))))))))))))))))))))))))\<close>

subsection \<open>\<open>hexDigitValue\<close> and \<open>hexToChar\<close> (lines 240 to 258)\<close>

text \<open>
  \<open>BT_ASSERT\<close> is a macro of util/btassert.h, which is not among the sources. What the
  macro does is a parameter of the model: with \<open>checked\<close> it tests its condition and aborts
  the process when the condition is false; without, it is compiled out and does nothing.
  (Line 251 calls \<open>abort()\<close> itself behind \<open>BT_ASSERT(false)\<close>, so the source reckons with
  the second.)
\<close>

definition BT_ASSERT :: "bool \<Rightarrow> bool \<Rightarrow> error + unit" where
  "BT_ASSERT checked c = (if checked \<and> \<not> c then Inl Abort else Inr ())"

text \<open>
  The default branch is \<open>BT_ASSERT(false)\<close> followed by \<open>abort()\<close>: the process aborts
  whatever the macro does.
\<close>

definition hexDigitValue :: "char \<Rightarrow> error + nat" where
  "hexDigitValue hex =
     (if hex \<in> set ''0123456789'' then Inr (of_char hex - of_char CHR ''0'')
      else if hex \<in> set ''abcdef'' then Inr (of_char hex - of_char CHR ''a'' + 10)
      else if hex \<in> set ''ABCDEF'' then Inr (of_char hex - of_char CHR ''A'' + 10)
      else Inl Abort)"

text \<open>
  \<open>hex[0]\<close> and \<open>hex[1]\<close> are reads of a C string: behind its last character stands the
  null character. The sum is an \<open>unsigned\<close> that the return narrows to a \<open>char\<close>.
\<close>

definition cstr_at :: "string \<Rightarrow> nat \<Rightarrow> char" where
  "cstr_at s i = (if i < length s then s ! i else CHR 0x00)"

definition hexToChar :: "string \<Rightarrow> error + char" where
  "hexToChar hex =
     (case hexDigitValue (cstr_at hex 0) of
        Inl err \<Rightarrow> Inl err
      | Inr first \<Rightarrow>
          (case hexDigitValue (cstr_at hex 1) of
             Inl err \<Rightarrow> Inl err
           | Inr second \<Rightarrow> Inr (char_of (first * 16 + second))))"

subsection \<open>\<open>GbfToHtml::handleToken\<close> (lines 261 to 316)\<close>

text \<open>
  Modelled from the spec: the class \<open>UserData\<close> is declared in gbftohtml.h, which is not
  among the sources. Its fields, as far as \<open>handleToken\<close> uses them: the name of the
  module, the short text of the key, the footnote counter (taken as a natural number),
  and the two flags.
\<close>

record UserData =
  moduleName :: string
  keyShortText :: string
  swordFootnote :: nat
  hasFootnotePreTag :: bool
  suspendTextPassThru :: bool

text \<open>
  Modelled from the spec: the constructor of \<open>UserData\<close> is in gbftohtml.h as well. A fresh
  render context has both flags off and starts the footnote counter at 0 (the spec's
  "zero-based sequential integer per render call").
\<close>

definition freshUserData :: "string \<Rightarrow> string \<Rightarrow> UserData" where
  "freshUserData name key =
     \<lparr>moduleName = name, keyShortText = key, swordFootnote = 0,
      hasFootnotePreTag = False, suspendTextPassThru = False\<rparr>"

text \<open>\<open>QString::number\<close> of a natural number: its decimal digits.\<close>

function number :: "nat \<Rightarrow> string" where
  "number n = (if n < 10 then [char_of (of_char CHR ''0'' + n)]
               else number (n div 10) @ [char_of (of_char CHR ''0'' + n mod 10)])"
  by pat_completeness auto
termination
  by (relation "measure id") auto

declare number.simps [simp del]

text \<open>\<open>!std::strncmp(token, p, 2u)\<close> for a prefix \<open>p\<close> of two characters.\<close>

definition startsWith :: "string \<Rightarrow> string \<Rightarrow> bool" where
  "startsWith token p \<longleftrightarrow> take 2 token = p"

text \<open>
  The result is \<open>Abort\<close>, or the returned flag with the new buffer and user data.
  \<open>checked\<close> says what \<open>BT_ASSERT\<close> does (see above); \<open>GBFHTML_handleToken\<close> is the handler
  of the base class, to which the last branch hands the token. The assertion of line 265
  on the type of the user data holds in the model by the type of \<open>userData\<close>.
\<close>

definition handleToken ::
  "bool \<Rightarrow> tokenSubMap \<Rightarrow> (string \<Rightarrow> string \<Rightarrow> UserData \<Rightarrow> error + bool \<times> string \<times> UserData)
     \<Rightarrow> string \<Rightarrow> string \<Rightarrow> UserData \<Rightarrow> error + bool \<times> string \<times> UserData" where
  \<open>handleToken checked table GBFHTML_handleToken buf token userData =
     (case substituteToken table buf token of
        Some buf' \<Rightarrow> Inr (True, buf', userData)
      | None \<Rightarrow>
          (let tokenLength = length token
           in if startsWith token ''WG'' \<or> startsWith token ''WH'' \<or> startsWith token ''WT'' then
                Inr (True, buf @ ''<'' @ token @ ''>'', userData)
              else if startsWith token ''RB'' then
                Inr (True, buf @ ''<span class="footnotepre">'',
                     userData\<lparr>hasFootnotePreTag := True\<rparr>)
              else if startsWith token ''RF'' then
                (let (buf1, userData1) =
                       (if hasFootnotePreTag userData
                        then (buf @ ''</span>'', userData\<lparr>hasFootnotePreTag := False\<rparr>)
                        else (buf, userData))
                 in Inr (True,
                         buf1 @ '' <span class="footnote" note="'' @ moduleName userData1 @ ''/''
                           @ keyShortText userData1 @ ''/'' @ number (swordFootnote userData1)
                           @ ''">*</span> '',
                         userData1\<lparr>swordFootnote := swordFootnote userData1 + 1,
                                     suspendTextPassThru := True\<rparr>))
              else if startsWith token ''Rf'' then
                Inr (True, buf, userData\<lparr>suspendTextPassThru := False\<rparr>)
              else if startsWith token ''FN'' then
                Inr (True,
                     buf @ ''<font face="'' @ filter (\<lambda>c. c \<noteq> CHR 0x22) (drop 2 token) @ ''">'',
                     userData)
              else if startsWith token ''CA'' then
                (case BT_ASSERT checked (tokenLength = 4) of
                   Inl err \<Rightarrow> Inl err
                 | Inr _ \<Rightarrow>
                     (case hexToChar (drop 2 token) of
                        Inl err \<Rightarrow> Inl err
                      | Inr c \<Rightarrow> Inr (True, buf @ [c], userData)))
              else GBFHTML_handleToken buf token userData))\<close>

subsection \<open>The streaming filter\<close>

text \<open>
  Modelled from the spec: the loop that reads the buffer and calls \<open>handleToken\<close> is
  \<open>sword::SWBasicFilter::processText\<close>, which is not among the sources. After the spec
  (section 4.3): the input is read from left to right; a token stands between \<open><\<close> and
  the next \<open>>\<close> and is handed to the handler; any other character is appended to the
  output unless the pass-through is suspended. Input that ends inside a token ends the
  run.
\<close>

function streamingFilter ::
  "(string \<Rightarrow> string \<Rightarrow> UserData \<Rightarrow> error + bool \<times> string \<times> UserData)
     \<Rightarrow> string \<Rightarrow> string \<Rightarrow> UserData \<Rightarrow> error + string \<times> UserData" where
  "streamingFilter handler [] buf userData = Inr (buf, userData)"
| "streamingFilter handler (c # cs) buf userData =
     (if c = CHR ''<'' then
        (let token = takeWhile (\<lambda>x. x \<noteq> CHR ''>'') cs
         in if length token < length cs then
              (case handler buf token userData of
                 Inl err \<Rightarrow> Inl err
               | Inr (_, buf', userData') \<Rightarrow>
                   streamingFilter handler (drop (length token + 1) cs) buf' userData')
            else Inr (buf, userData))
      else streamingFilter handler cs
             (if suspendTextPassThru userData then buf else buf @ [c]) userData)"
  by pat_completeness auto
termination
  by (relation "measure (\<lambda>(handler, input, buf, userData). length input)") auto

text \<open>
  Modelled from the spec: the streaming stage of one text unit (\<open>GBFHTML::processText\<close>,
  inherited from the Sword library) is the loop above, run with a fresh render context;
  the buffer it leaves is its result.
\<close>

definition GBFHTML_processText ::
  "bool \<Rightarrow> tokenSubMap \<Rightarrow> (string \<Rightarrow> string \<Rightarrow> UserData \<Rightarrow> error + bool \<times> string \<times> UserData)
     \<Rightarrow> string \<Rightarrow> string \<Rightarrow> string \<Rightarrow> error + string" where
  "GBFHTML_processText checked table GBFHTML_handleToken name key buf =
     (case streamingFilter (handleToken checked table GBFHTML_handleToken) buf [] (freshUserData name key) of
        Inl err \<Rightarrow> Inl err
      | Inr (buf', _) \<Rightarrow> Inr buf')"

section \<open>Properties\<close>

subsection \<open>The annotation post-processor\<close>

text \<open>
  The loop over the markers never reaches the \<open>continue\<close> of line 197: the tag is inserted
  and \<open>tagAttributeStart\<close> is set in the same round. So every entry is worked off, and the
  post-processor returns for every buffer.
\<close>

lemma tagLoop_returns:
  "insertedTag v \<longrightarrow> tagAttributeStart v \<noteq> None \<Longrightarrow> \<exists>r. tagLoop e offset v = Inr r"
proof (induction e offset v rule: tagLoop.induct)
  case (1 e offset v)
  show ?case
  proof (cases "indexIn rx_marker e offset")
    case None
    then show ?thesis by (subst tagLoop.simps) simp
  next
    case (Some x)
    obtain pos cap1 cap2 n where x: "x = (pos, cap1, cap2, n)" by (cases x) auto
    define isMorph where "isMorph = (cap1 = CHR ''T'')"
    define val where "val = (if isMorph then cap2 else cap1 # cap2)"
    note ih = "1.IH" [OF Some x [symmetric] refl refl isMorph_def val_def]
    show ?thesis
    proof (cases "val = []")
      case True
      with Some x show ?thesis
        by (subst tagLoop.simps) (simp add: isMorph_def val_def)
    next
      case False
      show ?thesis
      proof (cases "insertedTag v")
        case False
        from ih(1) [OF \<open>val \<noteq> []\<close> False refl refl refl refl refl]
        show ?thesis using Some x \<open>val \<noteq> []\<close> False
          by (subst tagLoop.simps) (simp add: isMorph_def val_def Let_def)
      next
        case True
        with "1.prems" obtain tas where tas: "tagAttributeStart v = Some tas" by auto
        have nn: "\<not> \<not> insertedTag v" using True by simp
        note ih2 = ih(2-4) [OF \<open>val \<noteq> []\<close> nn refl tas]
        show ?thesis
        proof (cases "(\<not> isMorph \<and> hasLemmaAttr v) \<or> (isMorph \<and> hasMorphAttr v)")
          case same: True
          show ?thesis
          proof (cases "indexIn (rx_attr (attrName isMorph)) (remove_at pos n e) tas")
            case None
            from ih2(1) [OF same None] show ?thesis
              using Some x \<open>val \<noteq> []\<close> True tas same None
              by (subst tagLoop.simps) (simp add: isMorph_def val_def Let_def)
          next
            case (Some y)
            obtain foundPos len where y: "y = (foundPos, len)" by (cases y) auto
            from ih2(2) [OF same Some y [symmetric]] show ?thesis
              using \<open>indexIn rx_marker e offset = Some x\<close> x \<open>val \<noteq> []\<close> True tas same Some y
              by (subst tagLoop.simps) (simp add: isMorph_def val_def Let_def)
          qed
        next
          case other: False
          from ih2(3) [OF other refl] show ?thesis
            using Some x \<open>val \<noteq> []\<close> True tas other
            by (subst tagLoop.simps) (auto simp: isMorph_def val_def Let_def)
        qed
      qed
    qed
  qed
qed


lemma processEntry_returns: "\<exists>r. processEntry e = Inr r"
  using tagLoop_returns [of "\<lparr>insertedTag = False, hasLemmaAttr = False, hasMorphAttr = False,
      tagAttributeStart = None\<rparr>" e 0]
  by (simp add: processEntry_def)

lemma entriesLoop_returns: "\<exists>r. entriesLoop list result = Inr r"
proof (induction list arbitrary: result)
  case Nil
  show ?case by simp
next
  case (Cons e list)
  from processEntry_returns [of e] obtain e' where "processEntry e = Inr e'" ..
  with Cons [of "result @ e'"] show ?case by simp
qed

lemma annotate_returns: "\<exists>r. annotate buf = Inr r"
proof (cases "indexIn rx_run (c_str buf) 0")
  case None
  then show ?thesis by (simp add: annotate_def)
next
  case (Some x)
  obtain list t where s: "splitLoop (c_str buf) [] = (list, t)"
    by (cases "splitLoop (c_str buf) []") auto
  from entriesLoop_returns [of "if t \<noteq> [] then list @ [t] else list" "[]"]
  show ?thesis using Some s by (auto simp: annotate_def Let_def)
qed


text \<open>
  A text contains a raw word-origin marker when it has a part \<open><W\<close>, one of the letters
  \<open>H\<close>, \<open>G\<close>, \<open>T\<close>, any text, \<open>>\<close>. The search for the segmentation pattern finds a match
  exactly in such a text.
\<close>

definition containsMarker :: "string \<Rightarrow> bool" where
  "containsMarker t \<longleftrightarrow> (\<exists>u k v w. kindLetter k \<and> t = u @ ''<W'' @ k # v @ CHR ''>'' # w)"

lemma takeWhile_stops: "\<not> P c \<Longrightarrow> length (takeWhile P (v @ c # w)) \<le> length v"
  by (induction v) auto

lemma rx_marker_intro:
  assumes "kindLetter k"
  shows "\<exists>r. rx_marker (''<W'' @ k # v @ CHR ''>'' # w) = Some r"
proof -
  have "length (takeWhile (\<lambda>c. c \<noteq> CHR ''>'') (v @ CHR ''>'' # w)) \<le> length v"
    by (rule takeWhile_stops) simp
  then have "length (takeWhile (\<lambda>c. c \<noteq> CHR ''>'') (v @ CHR ''>'' # w)) < length (v @ CHR ''>'' # w)"
    by simp
  with assms show ?thesis by (simp add: Let_def)
qed

lemma rx_run_intro:
  assumes "kindLetter k"
  shows "\<exists>n. rx_run (''<W'' @ k # v @ CHR ''>'' # w) = Some n"
proof -
  from rx_marker_intro [OF assms, of v w] obtain r
    where "rx_marker (''<W'' @ k # v @ CHR ''>'' # w) = Some r" ..
  then have "\<exists>n. rx_unit (''<W'' @ k # v @ CHR ''>'' # w) = Some n"
    by (cases r) (simp add: rx_unit_def rx_punct_def)
  then show ?thesis
    by (subst rx_run.simps) (auto split: option.splits)
qed

lemma run_found:
  assumes "kindLetter k"
  shows "\<exists>r. indexFrom rx_run (u @ ''<W'' @ k # v @ CHR ''>'' # w) i = Some r"
proof (induction u arbitrary: i)
  case Nil
  from rx_run_intro [OF assms, of v w] show ?case by auto
next
  case (Cons c u)
  from Cons [of "Suc i"] show ?case by (auto split: option.splits)
qed

lemma rx_unit_sound:
  assumes "rx_unit s = Some n"
  shows "\<exists>u k v w. kindLetter k \<and> s = u @ ''<W'' @ k # v @ CHR ''>'' # w"
proof -
  define p where "p = (case s of [] \<Rightarrow> 0 | c # _ \<Rightarrow> if rx_punct c then 1 else (0::nat))"
  from assms obtain k v m where m: "rx_marker (drop p s) = Some (k, v, m)"
    by (auto simp: rx_unit_def p_def Let_def split: option.splits)
  note d = rx_marker_Some(4) [OF m]
  have "s = take p s @ CHR ''<'' # CHR ''W'' # k # v @ CHR ''>'' # drop m (drop p s)"
    by (simp only: d [symmetric] append_take_drop_id)
  then have "kindLetter k \<and> s = take p s @ ''<W'' @ k # v @ CHR ''>'' # drop m (drop p s)"
    using rx_marker_Some(1) [OF m] by simp
  then show ?thesis by blast
qed

lemma run_sound:
  assumes "indexIn rx_run t 0 = Some (p, n)"
  shows "containsMarker t"
proof -
  from indexIn_Some(3) [OF assms] have "rx_run (drop p t) = Some n" .
  then obtain m where "rx_unit (drop p t) = Some m"
    by (subst (asm) rx_run.simps) (auto split: option.splits)
  from rx_unit_sound [OF this] obtain u k v w
    where k: "kindLetter k" and "drop p t = u @ ''<W'' @ k # v @ CHR ''>'' # w" by blast
  then have "t = (take p t @ u) @ ''<W'' @ k # v @ CHR ''>'' # w"
    by (metis append_take_drop_id append_assoc)
  with k show ?thesis unfolding containsMarker_def by blast
qed

lemma containsMarker_iff: "containsMarker t \<longleftrightarrow> indexIn rx_run t 0 \<noteq> None"
proof
  assume "containsMarker t"
  then obtain u k v w where "kindLetter k" and "t = u @ ''<W'' @ k # v @ CHR ''>'' # w"
    unfolding containsMarker_def by blast
  with run_found [of k u v w 0] show "indexIn rx_run t 0 \<noteq> None"
    by (auto simp: indexIn_def)
next
  assume "indexIn rx_run t 0 \<noteq> None"
  then obtain p n where "indexIn rx_run t 0 = Some (p, n)"
    by (cases "indexIn rx_run t 0") auto
  then show "containsMarker t" by (rule run_sound)
qed

lemma containsMarker_c_str: "containsMarker (c_str t) \<Longrightarrow> containsMarker t"
proof -
  assume "containsMarker (c_str t)"
  then obtain u k v w where k: "kindLetter k" and c: "c_str t = u @ ''<W'' @ k # v @ CHR ''>'' # w"
    unfolding containsMarker_def by blast
  have "t = c_str t @ dropWhile (\<lambda>c. c \<noteq> CHR 0x00) t" by (simp add: c_str_def)
  then have "t = u @ ''<W'' @ k # v @ CHR ''>'' # (w @ dropWhile (\<lambda>c. c \<noteq> CHR 0x00) t)"
    unfolding c by simp
  with k show ?thesis unfolding containsMarker_def by blast
qed

lemma no_marker_early_return: "\<not> containsMarker t \<Longrightarrow> annotate t = Inr t"
proof -
  assume "\<not> containsMarker t"
  then have "\<not> containsMarker (c_str t)" using containsMarker_c_str by blast
  then have "indexIn rx_run (c_str t) 0 = None"
    by (cases "indexIn rx_run (c_str t) 0") (auto simp: containsMarker_iff)
  then show ?thesis by (simp add: annotate_def)
qed

text \<open>
  C4: for a text unit in whose streaming-stage output no raw word-origin marker stands,
  \<open>processText\<close> leaves that output as it is: the buffer after \<open>processText\<close> is the buffer
  the streaming stage has produced.
\<close>

theorem no_marker_no_change:
  assumes "stage buf = Inr t" and "\<not> containsMarker t"
  shows "processText stage findModuleByName module buf = Inr t"
proof -
  from assms(2) have "annotate t = Inr t" by (rule no_marker_early_return)
  with assms(1) show ?thesis by (simp add: processText_def)
qed

theorem no_marker_no_change_witness:
  \<open>processText
     (GBFHTML_processText True (GbfToHtml Map.empty) (\<lambda>buf token userData. Inr (False, buf, userData))
        ''KJV'' ''Gen 1:1'')
     [''KJV'' \<mapsto> \<lparr>has_lemmas = True, has_morphTags = True, has_strongNumbers = True\<rparr>]
     \<lparr>getName = ''KJV'', isProcessEntryAttributes = True\<rparr>
     ''Am <FI>Anfang<Fi>''
   = Inr ''Am <span class="italic">Anfang</span>''\<close>
proof -
  have s: \<open>GBFHTML_processText True (GbfToHtml Map.empty) (\<lambda>buf token userData. Inr (False, buf, userData))
        ''KJV'' ''Gen 1:1'' ''Am <FI>Anfang<Fi>'' = Inr ''Am <span class="italic">Anfang</span>''\<close>
    by code_simp
  have "indexIn rx_run ''Am <span class=\"italic\">Anfang</span>'' 0 = None"
    by code_simp
  then have n: "\<not> containsMarker ''Am <span class=\"italic\">Anfang</span>''"
    by (simp only: containsMarker_iff simp_thms)
  from no_marker_no_change [of "GBFHTML_processText True (GbfToHtml Map.empty)
      (\<lambda>buf token userData. Inr (False, buf, userData)) ''KJV'' ''Gen 1:1''" "''Am <FI>Anfang<Fi>''", OF s n]
  show ?thesis .
qed






lemma rx_marker_other_start: "a \<noteq> CHR ''<'' \<Longrightarrow> rx_marker (a # s) = None"
  by (cases "a # s" rule: rx_marker.cases) auto

lemma marker_search_skips:
  "CHR ''<'' \<notin> set w \<Longrightarrow> indexFrom rx_marker (w @ s) i = indexFrom rx_marker s (i + length w)"
  by (induction w arbitrary: i) (auto simp: rx_marker_other_start)

lemma empty_morph_found:
  assumes "CHR ''<'' \<notin> set w"
  shows "indexIn rx_marker (w @ ''<WT>'' @ r) 0 = Some (length w, CHR ''T'', [], 4)"
  using marker_search_skips [OF assms, of "''<WT>'' @ r" 0]
  by (simp add: indexIn_def kindLetter_def)

text \<open>
  C3, as the code has it: a morph marker with an empty value ends the work on its entry.
  When the search in the loop finds \<open><WT>\<close> next, the loop ends and the entry stays as it
  is at that moment; in particular an entry whose first marker is \<open><WT>\<close> is appended
  unchanged, the marker still in it, and no attribute is made or extended for it.
\<close>

theorem empty_morph_value_stops:
  "(indexIn rx_marker e offset = Some (pos, CHR ''T'', [], n) \<longrightarrow> tagLoop e offset vars = Inr e)
   \<and> (CHR ''<'' \<notin> set w \<longrightarrow> processEntry (w @ ''<WT>'' @ r) = Inr (w @ ''<WT>'' @ r))"
proof (intro conjI impI)
  assume "indexIn rx_marker e offset = Some (pos, CHR ''T'', [], n)"
  then show "tagLoop e offset vars = Inr e"
    by (subst tagLoop.simps) simp
next
  assume "CHR ''<'' \<notin> set w"
  from empty_morph_found [OF this, of r]
  have "tagLoop (w @ ''<WT>'' @ r) 0 vars = Inr (w @ ''<WT>'' @ r)" for vars
    by (subst tagLoop.simps) simp
  then show "processEntry (w @ ''<WT>'' @ r) = Inr (w @ ''<WT>'' @ r)"
    by (simp add: processEntry_def)
qed


theorem empty_morph_value_stops_witness:
  "indexIn rx_marker ''und<WT> '' 0 = Some (3, CHR ''T'', [], 4)
   \<and> tagLoop ''und<WT> '' 0
        \<lparr>insertedTag = False, hasLemmaAttr = False, hasMorphAttr = False, tagAttributeStart = None\<rparr>
       = Inr ''und<WT> ''
   \<and> processEntry ''und<WT> '' = Inr ''und<WT> ''"
proof -
  have i: "indexIn rx_marker ''und<WT> '' 0 = Some (3, CHR ''T'', [], 4)" by code_simp
  have w: "CHR ''<'' \<notin> set ''und''" by simp
  note s = empty_morph_value_stops [of "''und<WT> ''" 0 3 4
      "\<lparr>insertedTag = False, hasLemmaAttr = False, hasMorphAttr = False, tagAttributeStart = None\<rparr>"
      "''und''" "'' ''"]
  from s [THEN conjunct1, rule_format, OF i] s [THEN conjunct2, rule_format, OF w] i
  show ?thesis by simp
qed

text \<open>
  The claim C3 as the spec states it fails on both of its examples: for \<open>word<WH>\<close> the
  value is the kind letter \<open>H\<close>, which is not empty, and a lemma attribute is made; for
  \<open>word<WT>\<close> the marker is not consumed.
\<close>

theorem empty_value_counterexample:
  \<open>annotate ''word<WH>'' = Inr ''<span lemma="H">word</span>''
   \<and> annotate ''word<WH>'' \<noteq> Inr ''word''
   \<and> annotate ''word<WT>'' = Inr ''word<WT>''
   \<and> annotate ''word<WT>'' \<noteq> Inr ''word''\<close>
  by code_simp

text \<open>
  C2 fails on the code: in a run \<open>H\<close>, \<open>T\<close>, \<open>H\<close> the second marker resets \<open>hasLemmaAttr\<close>
  (line 216), so the third one is taken for the first of its kind and a second \<open>lemma\<close>
  attribute is inserted instead of \<open>|H3\<close> being appended to the first.
\<close>

theorem mixed_run_repeats_lemma:
  \<open>processEntry ''Wort<WH1><WT2><WH3>''
     = Inr ''<span lemma="H3" morph="2" lemma="H1">Wort</span>''
   \<and> annotate ''Wort<WH1><WT2><WH3>''
     = Inr ''<span lemma="H3" morph="2" lemma="H1">Wort</span>''
   \<and> annotate ''Wort<WH1><WT2><WH3>''
     \<noteq> Inr ''<span morph="2" lemma="H1|H3">Wort</span>''\<close>
  by code_simp



lemma annotate_example:
  \<open>annotate ''Am Anfang<WH07225> schuf<WH01254><WTH8804>''
   = Inr ''<span lemma="H07225">Am Anfang</span> <span morph="H8804" lemma="H01254">schuf</span>''\<close>
  by code_simp



subsection \<open>The guard of \<open>processText\<close>\<close>

text \<open>
  C7: when the module has the processing of entry attributes switched off, \<open>processText\<close>
  returns what the streaming stage of the base class has produced: the annotation
  post-processor is not run, so no annotation span is inserted.
\<close>

theorem processText_attributes_disabled:
  "\<not> isProcessEntryAttributes module \<Longrightarrow> processText stage findModuleByName module buf = stage buf"
  by (simp add: processText_def split: sum.splits)


theorem processText_attributes_disabled_witness:
  "\<not> isProcessEntryAttributes \<lparr>getName = ''KJV'', isProcessEntryAttributes = False\<rparr>
   \<and> processText
        (GBFHTML_processText True (GbfToHtml Map.empty) (\<lambda>buf token userData. Inr (False, buf, userData))
           ''KJV'' ''Gen 1:1'')
        [''KJV'' \<mapsto> \<lparr>has_lemmas = True, has_morphTags = True, has_strongNumbers = True\<rparr>]
        \<lparr>getName = ''KJV'', isProcessEntryAttributes = False\<rparr>
        ''Am Anfang<WH07225>''
     = Inr ''Am Anfang<WH07225>''"
proof -
  have s: "GBFHTML_processText True (GbfToHtml Map.empty) (\<lambda>buf token userData. Inr (False, buf, userData))
           ''KJV'' ''Gen 1:1'' ''Am Anfang<WH07225>'' = Inr ''Am Anfang<WH07225>''"
    by code_simp
  show ?thesis
    using processText_attributes_disabled [of "\<lparr>getName = ''KJV'', isProcessEntryAttributes = False\<rparr>"
      "GBFHTML_processText True (GbfToHtml Map.empty) (\<lambda>buf token userData. Inr (False, buf, userData))
           ''KJV'' ''Gen 1:1''" _ "''Am Anfang<WH07225>''"] s
    by simp
qed


lemma stage_example:
  "GBFHTML_processText True (GbfToHtml Map.empty) (\<lambda>buf token userData. Inr (False, buf, userData))
      ''KJV'' ''Gen 1:1'' ''Am Anfang<WH07225> schuf<WH01254><WTH8804>''
   = Inr ''Am Anfang<WH07225> schuf<WH01254><WTH8804>''"
  by code_simp

text \<open>
  C1, as the code has it: for the input \<open>Am Anfang<WH07225> schuf<WH01254><WTH8804>\<close>, which
  the streaming stage leaves as it is, and a module with Strong's numbers and morphology
  tags, \<open>processText\<close> wraps \<open>Am Anfang\<close> in a span with \<open>lemma="H07225"\<close> and \<open>schuf\<close> in a
  span with \<open>morph="H8804" lemma="H01254"\<close>: the morph value is the payload of the marker
  behind its kind letter \<open>T\<close>, and the attribute found later is inserted right behind the
  tag name, in front of the one found first.
\<close>

theorem genesis_example:
  assumes "stage ''Am Anfang<WH07225> schuf<WH01254><WTH8804>''
             = Inr ''Am Anfang<WH07225> schuf<WH01254><WTH8804>''"
    and "isProcessEntryAttributes module"
    and "findModuleByName (getName module) = Some m"
    and "has_strongNumbers m" and "has_morphTags m"
  shows \<open>processText stage findModuleByName module ''Am Anfang<WH07225> schuf<WH01254><WTH8804>''
    = Inr ''<span lemma="H07225">Am Anfang</span> <span morph="H8804" lemma="H01254">schuf</span>''\<close>
  using assms by (simp add: processText_def annotate_example)


theorem genesis_example_witness:
  \<open>processText
     (GBFHTML_processText True (GbfToHtml Map.empty) (\<lambda>buf token userData. Inr (False, buf, userData))
        ''KJV'' ''Gen 1:1'')
     [''KJV'' \<mapsto> \<lparr>has_lemmas = False, has_morphTags = True, has_strongNumbers = True\<rparr>]
     \<lparr>getName = ''KJV'', isProcessEntryAttributes = True\<rparr>
     ''Am Anfang<WH07225> schuf<WH01254><WTH8804>''
   = Inr ''<span lemma="H07225">Am Anfang</span> <span morph="H8804" lemma="H01254">schuf</span>''\<close>
  using genesis_example [of "GBFHTML_processText True (GbfToHtml Map.empty)
      (\<lambda>buf token userData. Inr (False, buf, userData)) ''KJV'' ''Gen 1:1''"
      "\<lparr>getName = ''KJV'', isProcessEntryAttributes = True\<rparr>"
      "[''KJV'' \<mapsto> \<lparr>has_lemmas = False, has_morphTags = True, has_strongNumbers = True\<rparr>]"
      "\<lparr>has_lemmas = False, has_morphTags = True, has_strongNumbers = True\<rparr>", OF stage_example]
  by simp


text \<open>The output that the spec gives for C1 is not the one of the code.\<close>

theorem genesis_example_counterexample:
  \<open>processText
     (GBFHTML_processText True (GbfToHtml Map.empty) (\<lambda>buf token userData. Inr (False, buf, userData))
        ''KJV'' ''Gen 1:1'')
     [''KJV'' \<mapsto> \<lparr>has_lemmas = False, has_morphTags = True, has_strongNumbers = True\<rparr>]
     \<lparr>getName = ''KJV'', isProcessEntryAttributes = True\<rparr>
     ''Am Anfang<WH07225> schuf<WH01254><WTH8804>''
   \<noteq> Inr ''<span lemma="H07225">Am Anfang</span> <span lemma="H01254" morph="T8804">schuf</span>''\<close>
  by (simp add: processText_def stage_example annotate_example)


subsection \<open>The token handler\<close>

lemma hexDigitValue_lower: "i < 16 \<Longrightarrow> hexDigitValue (''0123456789abcdef'' ! i) = Inr i"
proof -
  have "list_all (\<lambda>i. hexDigitValue (''0123456789abcdef'' ! i) = Inr i) [0..<16]"
    by code_simp
  then show "i < 16 \<Longrightarrow> hexDigitValue (''0123456789abcdef'' ! i) = Inr i"
    by (simp add: list_all_iff)
qed

lemma hexDigitValue_upper: "i < 16 \<Longrightarrow> hexDigitValue (''0123456789ABCDEF'' ! i) = Inr i"
proof -
  have "list_all (\<lambda>i. hexDigitValue (''0123456789ABCDEF'' ! i) = Inr i) [0..<16]"
    by code_simp
  then show "i < 16 \<Longrightarrow> hexDigitValue (''0123456789ABCDEF'' ! i) = Inr i"
    by (simp add: list_all_iff)
qed

lemma hexDigitValue_invalid:
  "hex \<notin> set ''0123456789abcdefABCDEF'' \<Longrightarrow> hexDigitValue hex = Inl Abort"
  by (simp add: hexDigitValue_def)

lemma hexDigitValue_cases: "hexDigitValue hex = Inl Abort \<or> (\<exists>n. hexDigitValue hex = Inr n)"
  by (simp add: hexDigitValue_def)

lemma CA_token_reaches_decoder:
  "table (''CA'' @ [x, y]) = None \<Longrightarrow>
   handleToken checked table base buf (''CA'' @ [x, y]) userData =
     (case hexToChar [x, y] of Inl err \<Rightarrow> Inl err | Inr c \<Rightarrow> Inr (True, buf @ [c], userData))"
  by (simp add: handleToken_def startsWith_def BT_ASSERT_def substituteToken_def)

lemma table_CA: "GbfToHtml Map.empty (CHR ''C'' # CHR ''A'' # x # y # r) = None"
  by (simp add: GbfToHtml_def addTokenSubstitute_def removeTokenSubstitute_def)


text \<open>
  C8: a token \<open>CAxy\<close> that has no entry in the substitution table appends exactly one
  byte, of value \<open>16 * i + j\<close>, when \<open>x\<close> and \<open>y\<close> are the hexadecimal digits of values \<open>i\<close>
  and \<open>j\<close> (in either case); and the process aborts, with nothing appended, when one of
  the two is not a hexadecimal digit.
\<close>

theorem CA_token_decodes_or_aborts:
  assumes "table (''CA'' @ [x, y]) = None"
  shows "(\<forall>i j. i < 16 \<and> j < 16
            \<and> (x = ''0123456789abcdef'' ! i \<or> x = ''0123456789ABCDEF'' ! i)
            \<and> (y = ''0123456789abcdef'' ! j \<or> y = ''0123456789ABCDEF'' ! j)
          \<longrightarrow> handleToken checked table base buf (''CA'' @ [x, y]) userData
                = Inr (True, buf @ [char_of (16 * i + j)], userData))
       \<and> (x \<notin> set ''0123456789abcdefABCDEF'' \<or> y \<notin> set ''0123456789abcdefABCDEF''
          \<longrightarrow> handleToken checked table base buf (''CA'' @ [x, y]) userData = Inl Abort)"
proof -
  note r = CA_token_reaches_decoder [of table x y checked base buf userData, OF assms]
  show ?thesis
  proof (intro conjI allI impI)
  fix i j
  assume a: "i < 16 \<and> j < 16
            \<and> (x = ''0123456789abcdef'' ! i \<or> x = ''0123456789ABCDEF'' ! i)
            \<and> (y = ''0123456789abcdef'' ! j \<or> y = ''0123456789ABCDEF'' ! j)"
  then have "hexDigitValue x = Inr i" and "hexDigitValue y = Inr j"
    using hexDigitValue_lower hexDigitValue_upper by auto
  then have "hexToChar [x, y] = Inr (char_of (16 * i + j))"
    by (simp add: hexToChar_def cstr_at_def mult.commute)
  then show "handleToken checked table base buf (''CA'' @ [x, y]) userData
                = Inr (True, buf @ [char_of (16 * i + j)], userData)"
    using r by simp
next
  assume "x \<notin> set ''0123456789abcdefABCDEF'' \<or> y \<notin> set ''0123456789abcdefABCDEF''"
  then have "hexDigitValue x = Inl Abort \<or> hexDigitValue y = Inl Abort"
    using hexDigitValue_invalid by blast
  then have "hexToChar [x, y] = Inl Abort"
    using hexDigitValue_cases [of x] by (auto simp: hexToChar_def cstr_at_def)
  then show "handleToken checked table base buf (''CA'' @ [x, y]) userData = Inl Abort"
    using r by simp
  qed
qed


theorem CA_token_decodes_or_aborts_witness:
  "handleToken True (GbfToHtml Map.empty) (\<lambda>buf token userData. Inr (False, buf, userData))
      ''x'' ''CA41'' (freshUserData ''KJV'' ''Gen 1:1'')
     = Inr (True, ''xA'', freshUserData ''KJV'' ''Gen 1:1'')
   \<and> handleToken True (GbfToHtml Map.empty) (\<lambda>buf token userData. Inr (False, buf, userData))
      ''x'' ''CAZZ'' (freshUserData ''KJV'' ''Gen 1:1'') = Inl Abort"
proof -
  have t: "GbfToHtml Map.empty (''CA'' @ [x, y]) = None" for x y
    by (simp add: table_CA)
  have c: "char_of (16 * 4 + (1::nat)) = CHR ''A''" by code_simp
  note d = CA_token_decodes_or_aborts [of "GbfToHtml Map.empty" "CHR ''4''" "CHR ''1''" True
      "\<lambda>buf token userData. Inr (False, buf, userData)" "''x''" "freshUserData ''KJV'' ''Gen 1:1''",
      OF t]
  note z = CA_token_decodes_or_aborts [of "GbfToHtml Map.empty" "CHR ''Z''" "CHR ''Z''" True
      "\<lambda>buf token userData. Inr (False, buf, userData)" "''x''" "freshUserData ''KJV'' ''Gen 1:1''",
      OF t]
  from d [THEN conjunct1, rule_format, of 4 1]
  have "handleToken True (GbfToHtml Map.empty) (\<lambda>buf token userData. Inr (False, buf, userData))
      ''x'' ''CA41'' (freshUserData ''KJV'' ''Gen 1:1'')
     = Inr (True, ''x'' @ [char_of (16 * 4 + (1::nat))], freshUserData ''KJV'' ''Gen 1:1'')"
    by simp
  moreover from z [THEN conjunct2]
  have "handleToken True (GbfToHtml Map.empty) (\<lambda>buf token userData. Inr (False, buf, userData))
      ''x'' ''CAZZ'' (freshUserData ''KJV'' ''Gen 1:1'') = Inl Abort"
    by simp
  ultimately show ?thesis unfolding c by simp
qed






lemma table_Rf: "GbfToHtml base ''Rf'' = None"
  by (simp add: GbfToHtml_def addTokenSubstitute_def removeTokenSubstitute_def)

lemma table_RB: "GbfToHtml base ''RB'' = base ''RB''"
  by (simp add: GbfToHtml_def addTokenSubstitute_def removeTokenSubstitute_def)

lemma table_RF: "GbfToHtml base ''RF'' = base ''RF''"
  by (simp add: GbfToHtml_def addTokenSubstitute_def removeTokenSubstitute_def)

lemma handle_RB:
  \<open>table ''RB'' = None \<Longrightarrow>
   handleToken checked table baseHandler buf ''RB'' userData
     = Inr (True, buf @ ''<span class="footnotepre">'', userData\<lparr>hasFootnotePreTag := True\<rparr>)\<close>
  by (simp add: handleToken_def substituteToken_def startsWith_def)

lemma handle_RF:
  \<open>table ''RF'' = None \<Longrightarrow> hasFootnotePreTag userData \<Longrightarrow>
   handleToken checked table baseHandler buf ''RF'' userData
     = Inr (True,
            buf @ ''</span> <span class="footnote" note="'' @ moduleName userData @ ''/''
              @ keyShortText userData @ ''/'' @ number (swordFootnote userData) @ ''">*</span> '',
            userData\<lparr>hasFootnotePreTag := False, swordFootnote := swordFootnote userData + 1,
                       suspendTextPassThru := True\<rparr>)\<close>
  by (simp add: handleToken_def substituteToken_def startsWith_def)

lemma handle_Rf:
  \<open>table ''Rf'' = None \<Longrightarrow>
   handleToken checked table baseHandler buf ''Rf'' userData
     = Inr (True, buf, userData\<lparr>suspendTextPassThru := False\<rparr>)\<close>
  by (simp add: handleToken_def substituteToken_def startsWith_def)


text \<open>
  C9: for the input \<open><RB>text<RF><Rf>\<close> and a fresh render context, with a base table
  that has no entry for \<open>RB\<close> and \<open>RF\<close>: the token \<open>Rf\<close> has no entry in the table of the
  filter; after \<open><RF>\<close> the output is one footnote preamble span around \<open>text\<close>, closed,
  followed by one footnote reference numbered 0, and the pass-through is suspended;
  \<open><Rf>\<close> ends the suspension and leaves the output as it is, so \<open>text\<close> stands in it once.
\<close>

theorem footnote_example:
  assumes "base ''RB'' = None" and "base ''RF'' = None"
  shows \<open>GbfToHtml base ''Rf'' = None
    \<and> streamingFilter (handleToken checked (GbfToHtml base) baseHandler) ''<RB>text<RF>'' []
         (freshUserData name key)
       = Inr (''<span class="footnotepre">text</span> <span class="footnote" note="'' @ name @ ''/''
                @ key @ ''/0">*</span> '',
              (freshUserData name key)\<lparr>swordFootnote := 1, suspendTextPassThru := True\<rparr>)
    \<and> streamingFilter (handleToken checked (GbfToHtml base) baseHandler) ''<RB>text<RF><Rf>'' []
         (freshUserData name key)
       = Inr (''<span class="footnotepre">text</span> <span class="footnote" note="'' @ name @ ''/''
                @ key @ ''/0">*</span> '',
              (freshUserData name key)\<lparr>swordFootnote := 1\<rparr>)\<close>
proof -
  have rb: "GbfToHtml base ''RB'' = None" and rf: "GbfToHtml base ''RF'' = None"
    using assms by (simp_all add: table_RB table_RF)
  have n0: "number 0 = ''0''" by code_simp
  show ?thesis
    by (simp add: table_Rf handle_RB [of "GbfToHtml base", OF rb]
        handle_RF [of "GbfToHtml base", OF rf] handle_Rf [of "GbfToHtml base", OF table_Rf]
        freshUserData_def n0)
qed


theorem footnote_example_witness:
  \<open>GBFHTML_processText True (GbfToHtml Map.empty) (\<lambda>buf token userData. Inr (False, buf, userData))
      ''KJV'' ''Gen 1:1'' ''<RB>text<RF><Rf>''
    = Inr ''<span class="footnotepre">text</span> <span class="footnote" note="KJV/Gen 1:1/0">*</span> ''\<close>
  using footnote_example [of Map.empty True "\<lambda>buf token userData. Inr (False, buf, userData)"
      "''KJV''" "''Gen 1:1''"]
  by (simp add: GBFHTML_processText_def)


end
